theory Spec2Isabelle
  imports Main "HOL-Library.Word"
begin

unbundle bit_operations_syntax

section \<open>Jellyfish: the packed concurrent hash counters\<close>

text \<open>
  A shallow embedding of \<^verbatim>\<open>jellyfish/packed_concurrent_hash_counters.hpp\<close>:
  the generation \<^verbatim>\<open>arys_t\<close>, the per-thread handle \<^verbatim>\<open>thread_hash_counter\<close>
  and the root \<^verbatim>\<open>concurrent_hash_counter\<close>, at the repository's instance
  \<^verbatim>\<open>Key = uint64_t\<close> with any unsigned counter type \<^verbatim>\<open>Val\<close>.

  Machine integers are words: \<^verbatim>\<open>unsigned long\<close> and \<^verbatim>\<open>uint64_t\<close> are
  \<open>64 word\<close> (LP64), \<^verbatim>\<open>unsigned int\<close> is \<open>32 word\<close>, \<^verbatim>\<open>Val\<close> is
  \<open>'v word\<close>. The model is the execution of one thread: an atomic built-in acts on
  the value the thread has just read.
\<close>

type_synonym Key = "64 word"
type_synonym ulong = "64 word"
type_synonym uint = "32 word"

subsection \<open>Outcomes\<close>

text \<open>
  Every operation returns an outcome. \<open>Ok\<close> is a normal return. \<open>Undefined\<close>
  stands for what C++ leaves undefined: an index outside an array, or a pointer that
  is null or refers to a deleted generation. \<open>NoReturn\<close> says that the call has
  not returned: never, for the rounding loop of the constructors, and not within the
  step budget, for the loops that are unrolled along one. \<open>Exit\<close> is the end of
  the process by \<^verbatim>\<open>exit(1)\<close>, which the allocating constructor calls when it has no
  memory.
\<close>

datatype 'a outcome = Ok 'a | Undefined | NoReturn | Exit

definition bind :: "'a outcome \<Rightarrow> ('a \<Rightarrow> 'b outcome) \<Rightarrow> 'b outcome" where
  "bind x f =
     (case x of Ok v \<Rightarrow> f v | Undefined \<Rightarrow> Undefined | NoReturn \<Rightarrow> NoReturn | Exit \<Rightarrow> Exit)"

subsection \<open>The packed key array\<close>

text \<open>
  Modelled from the spec: \<^verbatim>\<open>small_packed_array\<close>
  (\<^verbatim>\<open>jellyfish/small_packed_array.hpp\<close> is included, not part of the sources).
  The spec gives its cells a presence bit and a payload, so a cell is \<open>None\<close>
  (empty) or \<open>Some k\<close>. \<open>set(i, k)\<close> returns true if the slot was empty and k was
  installed, or if the slot already held exactly k, and false if the slot holds some
  other key; \<open>get(i, *k_out)\<close> returns true and fills the key when the cell is
  occupied, false when it is empty.
\<close>

type_synonym small_packed_array = "Key option list"

definition spa_set :: "nat \<Rightarrow> Key \<Rightarrow> small_packed_array \<Rightarrow> (bool \<times> small_packed_array) outcome" where
  "spa_set i k ks =
     (if i < length ks then
        (case ks ! i of
           None \<Rightarrow> Ok (True, ks[i := Some k])
         | Some k' \<Rightarrow> Ok (k' = k, ks))
      else Undefined)"

definition spa_get :: "nat \<Rightarrow> small_packed_array \<Rightarrow> Key option outcome" where
  "spa_get i ks = (if i < length ks then Ok (ks ! i) else Undefined)"

subsection \<open>The generation \<^verbatim>\<open>arys_t\<close>\<close>

text \<open>
  The fields of \<^verbatim>\<open>arys_t\<close>. A pointer to a generation is an address, an index
  into the heap below; \<^verbatim>\<open>next\<close> is \<open>None\<close> for \<^verbatim>\<open>NULL\<close>. The fields
  \<^verbatim>\<open>size\<close>, \<^verbatim>\<open>count\<close> and \<^verbatim>\<open>next\<close> carry the suffix \<open>_a\<close>.
\<close>

record 'v arys =
  keys :: small_packed_array
  vals :: "'v list"
  size_a :: ulong
  mod_mask :: ulong
  nb_elt :: ulong
  count_a :: uint
  next_a :: "nat option"
  allocated :: bool
  copy_chunck :: uint

text \<open>
  The loop of \<^verbatim>\<open>arys_t::add\<close> (lines 162 to 175). \<open>mem\<close> is the counter cell
  \<^verbatim>\<open>*cvals\<close>, \<open>cval\<close> the value last read from it, and the result is the cell
  when the loop returns. \<^verbatim>\<open>__sync_val_compare_and_swap\<close> stores \<open>nval\<close> when the
  cell still holds \<open>cval\<close>, and returns the cell's old value either way.
\<close>

function add_loop :: "'v::len word \<Rightarrow> 'v word \<Rightarrow> 'v word \<Rightarrow> 'v word" where
  "add_loop mem cval val =
     (let ncval = NOT cval in
      if ncval = 0 then mem
      else
        let nval = (if ncval < val then 0 else cval + val) in
        if mem = cval then nval
        else add_loop mem mem val)"
  by pat_completeness auto
termination
  by (relation "measure (\<lambda>(mem, cval, val). if mem = cval then 0 else 1)") auto

text \<open>\<^verbatim>\<open>arys_t::add\<close>: the result holds the returned flag and the generation after the call.\<close>

definition arys_add :: "ulong \<Rightarrow> Key \<Rightarrow> 'v::len word \<Rightarrow> 'v word arys \<Rightarrow> (bool \<times> 'v word arys) outcome" where
  "arys_add idx key val a =
     (case spa_set (unat idx) key (keys a) of
        Undefined \<Rightarrow> Undefined
      | NoReturn \<Rightarrow> NoReturn
      | Exit \<Rightarrow> Exit
      | Ok (False, ks) \<Rightarrow> Ok (False, a\<lparr>keys := ks\<rparr>)
      | Ok (True, ks) \<Rightarrow>
          (if unat idx < length (vals a) then
             let cval = vals a ! unat idx in
             Ok (True, a\<lparr>keys := ks, vals := (vals a)[unat idx := add_loop cval cval val]\<rparr>)
           else Undefined))"

text \<open>\<^verbatim>\<open>arys_t::get\<close>: \<open>Some (key, val)\<close> when it returns true.\<close>

definition arys_get :: "ulong \<Rightarrow> 'v arys \<Rightarrow> (Key \<times> 'v) option outcome" where
  "arys_get idx a =
     (case spa_get (unat idx) (keys a) of
        Undefined \<Rightarrow> Undefined
      | NoReturn \<Rightarrow> NoReturn
      | Exit \<Rightarrow> Exit
      | Ok None \<Rightarrow> Ok None
      | Ok (Some key) \<Rightarrow>
          (if unat idx < length (vals a) then Ok (Some (key, vals a ! unat idx))
           else Undefined))"

text \<open>
  \<^verbatim>\<open>arys_t::get_chunck\<close>: \<open>Some (start, end)\<close> when it returns true, and the
  generation with its cursor advanced by the fetch-and-add.
\<close>

definition get_chunck :: "'v arys \<Rightarrow> (ulong \<times> ulong) option \<times> 'v arys" where
  "get_chunck a =
     (let i = copy_chunck a;
          a' = a\<lparr>copy_chunck := copy_chunck a + 1\<rparr>
      in if i \<ge> 128 then (None, a')
         else
           let size_chunck = drop_bit 7 (size_a a);
               start = ucast i * size_chunck;
               end0 = start + size_chunck;
               end1 = (if end0 > size_a a then size_a a else end0)
           in (Some (start, end1), a'))"

subsection \<open>Construction\<close>

text \<open>
  The rounding loop of both constructors (lines 114 to 115 and 132 to 133):
  \<^verbatim>\<open>size = 1; while(_size > size) { size <<= 1; }\<close>, with \<open>rsize\<close> for
  \<^verbatim>\<open>_size\<close>. The loop has no bound, so it is a partial function: \<open>None\<close> when it
  does not return.
\<close>

partial_function (option) round_size :: "ulong \<Rightarrow> ulong \<Rightarrow> ulong option" where
  "round_size rsize size0 = (if rsize > size0 then round_size rsize (push_bit 1 size0) else Some size0)"

declare round_size.simps [code]

type_synonym 'v heap = "'v arys option list"

text \<open>A deleted generation leaves \<open>None\<close> at its address; new generations get fresh addresses.\<close>

definition deref :: "'v heap \<Rightarrow> nat \<Rightarrow> 'v arys option" where
  "deref h p = (if p < length h then h ! p else None)"

text \<open>\<^verbatim>\<open>ref_inc\<close> and \<^verbatim>\<open>ref_dec\<close> return the new count.\<close>

definition ref_inc :: "nat \<Rightarrow> 'v heap \<Rightarrow> (uint \<times> 'v heap) outcome" where
  "ref_inc p h =
     (case deref h p of
        None \<Rightarrow> Undefined
      | Some a \<Rightarrow> Ok (count_a a + 1, h[p := Some (a\<lparr>count_a := count_a a + 1\<rparr>)]))"

definition ref_dec :: "nat \<Rightarrow> 'v heap \<Rightarrow> (uint \<times> 'v heap) outcome" where
  "ref_dec p h =
     (case deref h p of
        None \<Rightarrow> Undefined
      | Some a \<Rightarrow> Ok (count_a a - 1, h[p := Some (a\<lparr>count_a := count_a a - 1\<rparr>)]))"

text \<open>
  The allocating constructor \<^verbatim>\<open>arys_t(_item_len, _size, prev)\<close> (lines 112 to
  128), in the order of its statements: the rounding loop, \<^verbatim>\<open>mod_mask\<close>, the link
  from \<open>prev\<close>, the two allocations and the test of their results. It returns the
  address of the new generation.

  \<^verbatim>\<open>alloc\<close> is a template parameter whose functions are declared, not defined, in
  the sources, so what the call \<^verbatim>\<open>alloc(sizeof(Val) * size)\<close> returns is the
  parameter \<open>null\<close>: whether it is \<^verbatim>\<open>NULL\<close>. The product is one of
  \<^verbatim>\<open>size_t\<close> and wraps around: memory that is not \<^verbatim>\<open>NULL\<close> has room for
  \<open>bytes div sizeof(Val)\<close> counters, which is fewer than \<^verbatim>\<open>size\<close> when the
  product has wrapped. A \<^verbatim>\<open>new\<close>-expression does not return null, so the test
  \<^verbatim>\<open>!vals || !keys\<close> is the one on \<^verbatim>\<open>vals\<close>, and \<^verbatim>\<open>exit(1)\<close> is \<open>Exit\<close>.

  Modelled from the spec: what fresh memory holds. The constructor of
  \<^verbatim>\<open>small_packed_array\<close> is not part of the sources, nor is the allocator; every
  cell of a new key array is empty, and the counters are zero, as the spec's
  scenario 1 needs (a key inserted once has the value 1).
\<close>

definition new_arys :: "bool \<Rightarrow> uint \<Rightarrow> ulong \<Rightarrow> nat option \<Rightarrow> 'v::len word heap \<Rightarrow> (nat \<times> 'v word heap) outcome" where
  "new_arys null item_len rsize prev h =
     (case round_size rsize 1 of
        None \<Rightarrow> NoReturn
      | Some sz \<Rightarrow>
          let this = length h;
              linked =
                (case prev of
                   None \<Rightarrow> Ok h
                 | Some p \<Rightarrow>
                     (case deref h p of
                        None \<Rightarrow> Undefined
                      | Some pa \<Rightarrow> Ok (h[p := Some (pa\<lparr>next_a := Some this\<rparr>)])));
              bytes = (of_nat (LENGTH('v) div 8) * sz :: ulong);
              a = \<lparr>keys = replicate (unat sz) None,
                   vals = replicate (unat bytes div (LENGTH('v) div 8)) 0,
                   size_a = sz, mod_mask = sz - 1, nb_elt = 0,
                   count_a = (if prev = None then 0 else 1), next_a = None,
                   allocated = True, copy_chunck = 0\<rparr>
          in bind linked (\<lambda>h1. if null then Exit else Ok (this, h1 @ [Some a])))"

text \<open>
  The constructor over mapped memory, \<^verbatim>\<open>arys_t(_item_len, _size, char *map)\<close>.
  The mapped region is given by what it holds: the key array \<open>ks\<close> at its start and
  the counters \<open>vs\<close> behind it. \<open>Inl bad_size_exception\<close> is the throw.
\<close>

datatype exception = bad_size_exception

definition map_arys :: "uint \<Rightarrow> ulong \<Rightarrow> small_packed_array \<times> 'v list \<Rightarrow> (exception + 'v arys) outcome" where
  "map_arys item_len rsize region =
     (case round_size rsize 1 of
        None \<Rightarrow> NoReturn
      | Some sz \<Rightarrow>
          if rsize \<noteq> sz then Ok (Inl bad_size_exception)
          else Ok (Inr \<lparr>keys = fst region, vals = snd region,
                         size_a = sz, mod_mask = sz - 1, nb_elt = 0,
                         count_a = 0, next_a = None, allocated = False, copy_chunck = 0\<rparr>))"

subsection \<open>Release\<close>

text \<open>
  \<^verbatim>\<open>thread_hash_counter::release\<close>. The result lists the addresses it deleted, in
  the order of the \<^verbatim>\<open>delete\<close>s. When the last generation it deletes has no
  \<^verbatim>\<open>next\<close>, the loop goes on to call \<^verbatim>\<open>ref_dec\<close> through a null pointer.
\<close>

definition live :: "'v heap \<Rightarrow> nat" where
  "live h = length (filter (\<lambda>x. x \<noteq> None) h)"

function release :: "nat option \<Rightarrow> 'v heap \<Rightarrow> (nat list \<times> 'v heap) outcome" where
  "release cary h =
     (case cary of
        None \<Rightarrow> Undefined
      | Some p \<Rightarrow>
          (case ref_dec p h of
             Undefined \<Rightarrow> Undefined
           | NoReturn \<Rightarrow> NoReturn
           | Exit \<Rightarrow> Exit
           | Ok (c, h1) \<Rightarrow>
               if c \<noteq> 0 then Ok ([], h1)
               else
                 (case deref h1 p of
                    None \<Rightarrow> Undefined
                  | Some a \<Rightarrow>
                      (case release (next_a a) (h1[p := None]) of
                         Ok (ds, h2) \<Rightarrow> Ok (p # ds, h2)
                       | Undefined \<Rightarrow> Undefined
                       | NoReturn \<Rightarrow> NoReturn
                       | Exit \<Rightarrow> Exit))))"
  by pat_completeness auto
termination
proof (relation "measure (\<lambda>(cary, h). live h)")
  show "wf (measure (\<lambda>(cary, h). live h))" by simp
next
  fix cary :: "nat option" and h :: "'v heap" and p x c h1 a
  assume rd: "ref_dec p h = Ok x" and x: "(c, h1) = x" and a: "deref h1 p = Some a"
  from rd x obtain a0 where a0: "deref h p = Some a0" and h1: "h1 = h[p := Some (a0\<lparr>count_a := count_a a0 - 1\<rparr>)]"
    by (auto simp: ref_dec_def split: option.splits)
  from a0 have p: "p < length h" "h ! p \<noteq> None"
    by (auto simp: deref_def split: if_splits)
  have less: "live (g[q := None]) < live g" if "q < length g" "g ! q \<noteq> None"
    for q and g :: "'v heap"
    using that
  proof (induction g arbitrary: q)
    case Nil
    then show ?case by simp
  next
    case (Cons x xs)
    then show ?case by (cases q) (auto simp: live_def)
  qed
  have "live (h1[p := None]) = live (h[p := None])"
    by (simp add: h1)
  also have "\<dots> < live h"
    using p by (rule less)
  finally show "((next_a a, h1[p := None]), cary, h) \<in> measure (\<lambda>(cary, h). live h)"
    by simp
qed

subsection \<open>The hash\<close>

text \<open>
  \<^verbatim>\<open>MurmurHash64A\<close> over a key of whole 8-byte words, which \<^verbatim>\<open>Key = uint64_t\<close>
  is: \<open>data\<close> holds the words, \<^verbatim>\<open>len\<close> is 8 times their number, and
  \<^verbatim>\<open>switch(len & 7)\<close> takes no case.
\<close>

fun murmur_blocks :: "ulong \<Rightarrow> ulong list \<Rightarrow> ulong" where
  "murmur_blocks h [] = h"
| "murmur_blocks h (k0 # data) =
     (let m = 0xc6a4a7935bd1e995;
          k1 = k0 * m;
          k2 = k1 XOR drop_bit 47 k1;
          k3 = k2 * m;
          h1 = h XOR k3
      in murmur_blocks (h1 * m) data)"

definition MurmurHash64A :: "ulong list \<Rightarrow> uint \<Rightarrow> ulong" where
  "MurmurHash64A data seed =
     (let m = 0xc6a4a7935bd1e995;
          h0 = ucast seed XOR (of_nat (8 * length data) * m);
          h1 = murmur_blocks h0 data;
          h2 = h1 XOR drop_bit 47 h1;
          h3 = h2 * m
      in h3 XOR drop_bit 47 h3)"

definition hash_key :: "Key \<Rightarrow> ulong" where
  "hash_key k = MurmurHash64A [k] 0x818c4070"

subsection \<open>The thread handle \<^verbatim>\<open>thread_hash_counter\<close>\<close>

text \<open>
  The handle of the one thread, with the memory it points into: \<open>heap\<close> holds the
  generations, \<open>key_val_arys_ptr\<close> is the value of \<^verbatim>\<open>*key_val_arys_ptr\<close> (the root's
  current generation) and \<open>key_val_arys\<close> the handle's cached pointer.
  \<open>resize_lock\<close> is the environment of the mutex: it lists, for the calls of
  \<^verbatim>\<open>pthread_mutex_trylock\<close> to come, whether the mutex is busy (held by another
  thread); past its end the mutex is free. \<open>alloc_null\<close> is the environment of the
  allocator in the same way: it lists, for the calls of \<^verbatim>\<open>alloc\<close> to come, whether
  the call returns \<^verbatim>\<open>NULL\<close>; past its end there is memory. The barrier of
  \<^verbatim>\<open>copy_over\<close> is that of a single worker and lets it through.
  \<^verbatim>\<open>STAT_INC\<close> expands to nothing.
\<close>

record 'v thread_hash_counter =
  heap :: "'v heap"
  key_len :: uint
  key_val_arys_ptr :: nat
  key_val_arys :: nat
  max_reprobe :: uint
  emax_reprobe :: uint
  resize_lock :: "bool list"
  alloc_null :: "bool list"

text \<open>\<^verbatim>\<open>pthread_mutex_trylock\<close>: whether the mutex was busy.\<close>

definition trylock :: "'v thread_hash_counter \<Rightarrow> bool \<times> 'v thread_hash_counter" where
  "trylock t =
     (case resize_lock t of
        [] \<Rightarrow> (False, t)
      | b # bs \<Rightarrow> (b, t\<lparr>resize_lock := bs\<rparr>))"

text \<open>The next call of \<^verbatim>\<open>alloc\<close>: whether it returns \<^verbatim>\<open>NULL\<close>.\<close>

definition alloc :: "'v thread_hash_counter \<Rightarrow> bool \<times> 'v thread_hash_counter" where
  "alloc t =
     (case alloc_null t of
        [] \<Rightarrow> (False, t)
      | b # bs \<Rightarrow> (b, t\<lparr>alloc_null := bs\<rparr>))"

text \<open>\<^verbatim>\<open>thread_hash_counter::resize\<close>.\<close>

definition resize :: "nat \<Rightarrow> bool \<Rightarrow> 'v::len word thread_hash_counter \<Rightarrow> (bool \<times> 'v word thread_hash_counter) outcome" where
  "resize carys block t =
     (let (busy, t0) = (if block then (False, t) else trylock t) in
      if busy then Ok (False, t0)
      else if key_val_arys_ptr t0 \<noteq> carys then Ok (True, t0)
      else
        (case deref (heap t0) carys of
           None \<Rightarrow> Undefined
         | Some a \<Rightarrow>
             let (null, t1) = alloc t0 in
             bind (new_arys null (key_len t1) (push_bit 1 (size_a a)) (Some carys) (heap t1)) (\<lambda>(narys, h1).
             bind (ref_inc narys h1) (\<lambda>(c1, h2).
             bind (ref_dec carys h2) (\<lambda>(c2, h3).
             Ok (True, t1\<lparr>heap := h3, key_val_arys_ptr := narys\<rparr>))))))"

text \<open>The reprobe of line 483: \<^verbatim>\<open>idx = (idx + reprobe) & carys->mod_mask\<close>.\<close>

definition reprobe_idx :: "ulong \<Rightarrow> ulong \<Rightarrow> uint \<Rightarrow> ulong" where
  "reprobe_idx msk idx reprobe = (idx + ucast reprobe) AND msk"

text \<open>
  \<^verbatim>\<open>thread_hash_counter::add\<close> and \<^verbatim>\<open>copy_over\<close>, which call each other. Their
  loops are unrolled along a step budget: every iteration and every call takes one
  step. A \<open>frame\<close> names the loop that runs, with its local variables:
  \<^item> \<open>Add_outer k v hash reprobe emax\<close> is the loop \<^verbatim>\<open>while(!done)\<close> of
    \<^verbatim>\<open>add\<close>; \<open>emax\<close> is the local \<^verbatim>\<open>emax_reprobe\<close> of line 445;
  \<^item> \<open>Add_probe k v hash carys idx reprobe emax\<close> is the loop \<^verbatim>\<open>while(1)\<close>
    inside it;
  \<^item> \<open>Copy_chuncks carys\<close> is the loop of \<^verbatim>\<open>copy_over\<close> over \<^verbatim>\<open>get_chunck\<close>;
  \<^item> \<open>Copy_slots carys i end\<close> is its loop \<^verbatim>\<open>for(i = start; i < end; i++)\<close>.

  Each body below is one iteration; \<open>rec\<close> runs a frame on what is left of the budget.
\<close>

datatype 'v frame =
    Add_outer Key 'v ulong uint uint
  | Add_probe Key 'v ulong nat ulong uint uint
  | Copy_chuncks nat
  | Copy_slots nat ulong ulong

type_synonym 'v runner = "'v frame \<Rightarrow> 'v thread_hash_counter \<Rightarrow> 'v thread_hash_counter outcome"

definition add_outer_body :: "'v::len word runner \<Rightarrow> Key \<Rightarrow> 'v word \<Rightarrow> ulong \<Rightarrow> uint \<Rightarrow> uint \<Rightarrow> 'v word thread_hash_counter \<Rightarrow> 'v word thread_hash_counter outcome" where
  "add_outer_body rec k v hash reprobe emax t =
     (let carys = key_val_arys_ptr t in
      if carys \<noteq> key_val_arys t then
        (let oarys = key_val_arys t in
         bind (ref_inc carys (heap t)) (\<lambda>(c, h1).
         bind (rec (Copy_chuncks oarys) (t\<lparr>heap := h1, key_val_arys := carys\<rparr>)) (\<lambda>t2.
         bind (release (Some oarys) (heap t2)) (\<lambda>(ds, h3).
         rec (Add_outer k v hash 0 emax) (t2\<lparr>heap := h3\<rparr>)))))
      else
        (case deref (heap t) carys of
           None \<Rightarrow> Undefined
         | Some a \<Rightarrow> rec (Add_probe k v hash carys (hash AND mod_mask a) reprobe emax) t))"

definition add_probe_body :: "'v::len word runner \<Rightarrow> Key \<Rightarrow> 'v word \<Rightarrow> ulong \<Rightarrow> nat \<Rightarrow> ulong \<Rightarrow> uint \<Rightarrow> uint \<Rightarrow> 'v word thread_hash_counter \<Rightarrow> 'v word thread_hash_counter outcome" where
  "add_probe_body rec k v hash carys idx reprobe emax t =
     (case deref (heap t) carys of
        None \<Rightarrow> Undefined
      | Some a \<Rightarrow>
          bind (arys_add idx k v a) (\<lambda>(added, a').
          let t1 = t\<lparr>heap := (heap t)[carys := Some a']\<rparr> in
          if added then Ok t1
          else
            (let reprobe' = reprobe + 1;
                 idx' = reprobe_idx (mod_mask a') idx reprobe'
             in if reprobe' > emax then
                  bind (resize carys False t1) (\<lambda>(resized, t2).
                  if resized then rec (Add_outer k v hash reprobe' emax) t2
                  else if emax > max_reprobe t2 then
                    bind (resize carys True t2) (\<lambda>(resized', t3).
                    rec (Add_outer k v hash reprobe' emax) t3)
                  else rec (Add_probe k v hash carys idx' reprobe' (4 * max_reprobe t2)) t2)
                else rec (Add_probe k v hash carys idx' reprobe' emax) t1)))"

definition copy_chuncks_body :: "'v::len word runner \<Rightarrow> nat \<Rightarrow> 'v word thread_hash_counter \<Rightarrow> 'v word thread_hash_counter outcome" where
  "copy_chuncks_body rec carys t =
     (case deref (heap t) carys of
        None \<Rightarrow> Undefined
      | Some a \<Rightarrow>
          (case get_chunck a of
             (None, a') \<Rightarrow> Ok (t\<lparr>heap := (heap t)[carys := Some a']\<rparr>)
           | (Some (start, end0), a') \<Rightarrow>
               bind (rec (Copy_slots carys start end0) (t\<lparr>heap := (heap t)[carys := Some a']\<rparr>)) (\<lambda>t1.
               rec (Copy_chuncks carys) t1)))"

definition copy_slots_body :: "'v::len word runner \<Rightarrow> nat \<Rightarrow> ulong \<Rightarrow> ulong \<Rightarrow> 'v word thread_hash_counter \<Rightarrow> 'v word thread_hash_counter outcome" where
  "copy_slots_body rec carys i end0 t =
     (if i < end0 then
        (case deref (heap t) carys of
           None \<Rightarrow> Undefined
         | Some a \<Rightarrow>
             bind (arys_get i a) (\<lambda>r.
             case r of
               None \<Rightarrow> rec (Copy_slots carys (i + 1) end0) t
             | Some (ckey, cval) \<Rightarrow>
                 bind (rec (Add_outer ckey cval (hash_key ckey) 0 (max_reprobe t)) t) (\<lambda>t1.
                 rec (Copy_slots carys (i + 1) end0) t1)))
      else Ok t)"

primrec run :: "nat \<Rightarrow> 'v::len word frame \<Rightarrow> 'v word thread_hash_counter \<Rightarrow> 'v word thread_hash_counter outcome" where
  "run 0 f t = NoReturn"
| "run (Suc n) f t =
     (case f of
        Add_outer k v hash reprobe emax \<Rightarrow> add_outer_body (run n) k v hash reprobe emax t
      | Add_probe k v hash carys idx reprobe emax \<Rightarrow> add_probe_body (run n) k v hash carys idx reprobe emax t
      | Copy_chuncks carys \<Rightarrow> copy_chuncks_body (run n) carys t
      | Copy_slots carys i end0 \<Rightarrow> copy_slots_body (run n) carys i end0 t)"

text \<open>\<^verbatim>\<open>thread_hash_counter::add\<close> and \<^verbatim>\<open>copy_over\<close>, from their first lines.\<close>

definition thread_add :: "nat \<Rightarrow> Key \<Rightarrow> 'v::len word \<Rightarrow> 'v word thread_hash_counter \<Rightarrow> 'v word thread_hash_counter outcome" where
  "thread_add n k v t = run n (Add_outer k v (hash_key k) 0 (max_reprobe t)) t"

definition copy_over :: "nat \<Rightarrow> nat \<Rightarrow> 'v::len word thread_hash_counter \<Rightarrow> 'v word thread_hash_counter outcome" where
  "copy_over n carys t = run n (Copy_chuncks carys) t"

text \<open>
  The root's constructor \<^verbatim>\<open>concurrent_hash_counter(_key_len, _size, _max_reprobe, 1)\<close>
  followed by \<^verbatim>\<open>new_hash_counter()\<close>: generation 0 with the head's reference, and
  the handle with its own. \<open>lock\<close> and \<open>nulls\<close> are the environments of the mutex
  and of the allocator; the constructor of generation 0 makes the first call of
  \<^verbatim>\<open>alloc\<close>.
\<close>

definition new_hash_counter :: "uint \<Rightarrow> ulong \<Rightarrow> uint \<Rightarrow> bool list \<Rightarrow> bool list \<Rightarrow> 'v::len word thread_hash_counter outcome" where
  "new_hash_counter klen rsize mreprobe lock nulls =
     (let (null, rest) = (case nulls of [] \<Rightarrow> (False, []) | b # bs \<Rightarrow> (b, bs)) in
      bind (new_arys null klen rsize None []) (\<lambda>(g, h0).
      bind (ref_inc g h0) (\<lambda>(c1, h1).
      bind (ref_inc g h1) (\<lambda>(c2, h2).
      Ok \<lparr>heap = h2, key_len = klen, key_val_arys_ptr = g, key_val_arys = g,
          max_reprobe = mreprobe, emax_reprobe = mreprobe, resize_lock = lock,
          alloc_null = rest\<rparr>))))"

text \<open>
  \<^verbatim>\<open>arys_iterator::next\<close> from \<^verbatim>\<open>pos\<close>: the pair it stops at and the new
  \<^verbatim>\<open>pos\<close>, or \<open>None\<close> when it returns false.
\<close>

function iterator_next :: "'v arys \<Rightarrow> ulong \<Rightarrow> ((Key \<times> 'v) \<times> ulong) option outcome" where
  "iterator_next a pos =
     (if pos < size_a a then
        (case arys_get pos a of
           Undefined \<Rightarrow> Undefined
         | NoReturn \<Rightarrow> NoReturn
         | Exit \<Rightarrow> Exit
         | Ok (Some kv) \<Rightarrow> Ok (Some (kv, pos + 1))
         | Ok None \<Rightarrow> iterator_next a (pos + 1))
      else Ok None)"
  by pat_completeness auto
termination
proof (relation "measure (\<lambda>(a, pos). unat (size_a a) - unat pos)")
  show "wf (measure (\<lambda>(a :: 'v arys, pos). unat (size_a a) - unat pos))" by simp
next
  fix a :: "'v arys" and pos :: ulong
  assume lt: "pos < size_a a"
  then have "unat pos < unat (size_a a)" by (simp add: word_less_nat_alt)
  moreover have "unat (size_a a) < 2 ^ LENGTH(64)"
    by (rule unsigned_less)
  ultimately have "unat pos + unat (1 :: ulong) < 2 ^ LENGTH(64)"
    by simp
  then have "unat (pos + 1) = unat pos + 1"
    by (simp add: unat_add_lem [THEN iffD1])
  with \<open>unat pos < unat (size_a a)\<close>
  show "((a, pos + 1), a, pos) \<in> measure (\<lambda>(a, pos). unat (size_a a) - unat pos)"
    by simp
qed

text \<open>
  The loop of a reader, \<^verbatim>\<open>while(it->next())\<close> from \<^verbatim>\<open>pos\<close>: the pairs the
  iterator yields, in its order. \<open>iterate\<close> is the loop of a new iterator.
\<close>

function iterate_from :: "'v arys \<Rightarrow> ulong \<Rightarrow> (Key \<times> 'v) list outcome" where
  "iterate_from a pos =
     (case iterator_next a pos of
        Undefined \<Rightarrow> Undefined
      | NoReturn \<Rightarrow> NoReturn
      | Exit \<Rightarrow> Exit
      | Ok None \<Rightarrow> Ok []
      | Ok (Some (kv, pos')) \<Rightarrow>
          (case iterate_from a pos' of
             Ok kvs \<Rightarrow> Ok (kv # kvs)
           | Undefined \<Rightarrow> Undefined
           | NoReturn \<Rightarrow> NoReturn
           | Exit \<Rightarrow> Exit))"
  by pat_completeness auto
termination
proof (relation "measure (\<lambda>(a, pos). unat (size_a a) - unat pos)")
  show "wf (measure (\<lambda>(a :: 'v arys, pos). unat (size_a a) - unat pos))" by simp
next
  have grows: "unat pos < unat pos' \<and> unat pos' \<le> unat (size_a a)"
    if "iterator_next a pos = Ok (Some (kv, pos'))"
    for a :: "'v arys" and pos pos' :: ulong and kv :: "Key \<times> 'v"
    using that
  proof (induction a pos rule: iterator_next.induct)
    case (1 a pos)
    show ?case
    proof (cases "pos < size_a a")
      case False
      with 1(2) show ?thesis by (subst (asm) iterator_next.simps) simp
    next
      case True
      then have lt: "unat pos < unat (size_a a)" by (simp add: word_less_nat_alt)
      moreover have "unat (size_a a) < 2 ^ LENGTH(64)" by (rule unsigned_less)
      ultimately have "unat pos + unat (1 :: ulong) < 2 ^ LENGTH(64)" by simp
      then have u: "unat (pos + 1) = unat pos + 1" by (simp add: unat_add_lem [THEN iffD1])
      show ?thesis
      proof (cases "arys_get pos a")
        case (Ok r)
        show ?thesis
        proof (cases r)
          case None
          with Ok True 1(2) have "iterator_next a (pos + 1) = Ok (Some (kv, pos'))"
            by (subst (asm) iterator_next.simps) simp
          from 1(1) [OF True Ok None this] u show ?thesis by simp
        next
          case (Some x)
          with Ok True 1(2) have "pos' = pos + 1"
            by (subst (asm) iterator_next.simps) simp
          with u lt show ?thesis by simp
        qed
      next
        case Undefined
        with True 1(2) show ?thesis by (subst (asm) iterator_next.simps) simp
      next
        case NoReturn
        with True 1(2) show ?thesis by (subst (asm) iterator_next.simps) simp
      next
        case Exit
        with True 1(2) show ?thesis by (subst (asm) iterator_next.simps) simp
      qed
    qed
  qed
  fix a :: "'v arys" and pos x2 x y pos'
  assume "iterator_next a pos = Ok x2" "x2 = Some x" "(y, pos') = x"
  then have "iterator_next a pos = Ok (Some (y, pos'))" by simp
  from grows [OF this]
  have "unat (size_a a) - unat pos' < unat (size_a a) - unat pos" by arith
  then show "((a, pos'), a, pos) \<in> measure (\<lambda>(a, pos). unat (size_a a) - unat pos)" by simp
qed

definition iterate :: "'v arys \<Rightarrow> (Key \<times> 'v) list outcome" where
  "iterate a = iterate_from a 0"

subsection \<open>Writing a generation and mapping it back\<close>

text \<open>
  The counters in memory, as the bytes of a little-endian machine: \<open>le_bytes n w\<close>
  are the \<open>n\<close> bytes of \<open>w\<close>, \<open>of_le_bytes\<close> reads a value from its bytes, and
  \<open>vals_of_bytes\<close> reads the array \<^verbatim>\<open>(Val *)p\<close> from the bytes at \<open>p\<close>, as far as
  they hold whole values. \<^verbatim>\<open>sizeof(Val)\<close> is \<open>LENGTH('v) div 8\<close>.
\<close>

type_synonym byte = "8 word"

definition le_bytes :: "nat \<Rightarrow> 'v::len word \<Rightarrow> byte list" where
  "le_bytes n w = map (\<lambda>i. ucast (drop_bit (8 * i) w)) [0..<n]"

definition of_le_bytes :: "byte list \<Rightarrow> 'v::len word" where
  "of_le_bytes bs = horner_sum ucast 256 bs"

function vals_of_bytes :: "byte list \<Rightarrow> 'v::len word list" where
  "vals_of_bytes bs =
     (if LENGTH('v) div 8 = 0 \<or> length bs < LENGTH('v) div 8 then []
      else of_le_bytes (take (LENGTH('v) div 8) bs) # vals_of_bytes (drop (LENGTH('v) div 8) bs))"
  by pat_completeness auto
termination
  by (relation "measure length") auto

text \<open>
  \<^verbatim>\<open>arys_t::write\<close>: what \<^verbatim>\<open>keys->write(out)\<close> writes, then
  \<^verbatim>\<open>sizeof(Val) * size\<close> bytes from \<^verbatim>\<open>vals\<close>. The packed key array is not part
  of the sources, so the bytes it writes are the parameter \<open>keys_written\<close>.
\<close>

definition arys_write :: "byte list \<Rightarrow> 'v::len word arys \<Rightarrow> byte list outcome" where
  "arys_write keys_written a =
     (let mem = concat (map (le_bytes (LENGTH('v) div 8)) (vals a));
          n = unat (of_nat (LENGTH('v) div 8) * size_a a)
      in if n \<le> length mem then Ok (keys_written @ take n mem) else Undefined)"

text \<open>
  What a mapped region \<open>bs\<close> holds for the constructor \<open>map_arys\<close> (lines 137 to
  138): \<^verbatim>\<open>keys = new small_packed_array(map, _item_len, _size)\<close> and
  \<^verbatim>\<open>vals = (Val *)(map + keys->get_data_len())\<close>. The packed key array's constructor
  over a region and its \<^verbatim>\<open>get_data_len()\<close> are the parameters \<open>keys_of_map\<close> and
  \<open>data_len\<close>.
\<close>

definition map_region :: "(byte list \<Rightarrow> small_packed_array) \<Rightarrow> nat \<Rightarrow> byte list \<Rightarrow> small_packed_array \<times> 'v::len word list" where
  "map_region keys_of_map data_len bs = (keys_of_map bs, vals_of_bytes (drop data_len bs))"

subsection \<open>Notions used by the statements\<close>

text \<open>
  The reprobe sequence of \<^verbatim>\<open>thread_hash_counter::add\<close> on one generation: the pair
  of \<^verbatim>\<open>idx\<close> and \<^verbatim>\<open>reprobe\<close> after \<open>n\<close> probes that failed without a resize.
  \<^verbatim>\<open>++reprobe\<close> is an increment of an \<^verbatim>\<open>unsigned int\<close>.
\<close>

primrec probes :: "ulong \<Rightarrow> ulong \<Rightarrow> nat \<Rightarrow> ulong \<times> uint" where
  "probes msk idx0 0 = (idx0, 0)"
| "probes msk idx0 (Suc n) =
     (let (idx, reprobe) = probes msk idx0 n;
          reprobe' = reprobe + 1
      in (reprobe_idx msk idx reprobe', reprobe'))"

text \<open>The triangular numbers 0, 1, 3, 6, ...\<close>

fun triangle :: "nat \<Rightarrow> nat" where
  "triangle 0 = 0"
| "triangle (Suc n) = triangle n + Suc n"



text \<open>The handle with its member \<^verbatim>\<open>emax_reprobe\<close> set to \<open>e\<close>.\<close>

definition set_emax :: "uint \<Rightarrow> 'v thread_hash_counter \<Rightarrow> 'v thread_hash_counter" where
  "set_emax e t = t\<lparr>emax_reprobe := e\<rparr>"

section \<open>Basic facts\<close>

declare release.simps [simp del]
declare vals_of_bytes.simps [simp del]
declare iterate_from.simps [simp del]
declare iterator_next.simps [simp del]

lemma bind_simps [simp]:
  "bind (Ok v) f = f v" "bind Undefined f = Undefined" "bind NoReturn f = NoReturn"
  "bind Exit f = Exit"
  by (simp_all add: bind_def)

lemma deref_SomeD: "deref h p = Some a \<Longrightarrow> p < length h \<and> h ! p = Some a"
  by (simp add: deref_def split: if_splits)

lemma deref_update_same: "p < length h \<Longrightarrow> deref (h[p := x]) p = x"
  by (simp add: deref_def)


lemma unat_2p: "n < 64 \<Longrightarrow> unat ((2::ulong) ^ n) = 2 ^ n"
proof -
  assume n: "n < 64"
  have "(2::nat) ^ n < 2 ^ 64" using n by (intro power_strict_increasing) simp_all
  moreover have "(2::ulong) ^ n = of_nat (2 ^ n)" by simp
  ultimately show ?thesis by (simp only: unat_of_nat len_of_numeral_defs) simp
qed

lemma pow2_less_iff: "a < 64 \<Longrightarrow> b < 64 \<Longrightarrow> ((2::ulong) ^ a < 2 ^ b) = (a < b)"
  by (simp add: word_less_nat_alt unat_2p)

lemma pow2_le_iff: "a < 64 \<Longrightarrow> b < 64 \<Longrightarrow> ((2::ulong) ^ a \<le> 2 ^ b) = (a \<le> b)"
  by (simp add: word_le_nat_alt unat_2p)

section \<open>The generation's add\<close>

lemma add_loop_first:
  "add_loop c c v = (if NOT c = 0 then c else if NOT c < v then 0 else c + v)"
  by (simp add: Let_def)

text \<open>
  C2. The claim: \<^verbatim>\<open>arys_t::add(i, k, v)\<close> on a counter \<open>c\<close> leaves it when it is
  all-ones, sets it to all-ones when \<open>~c < v\<close>, and to \<open>c + v\<close> otherwise, so that
  the counter never decreases. The code assigns \<^verbatim>\<open>nval = 0x0\<close> in the overflow
  branch (line 167): on a slot that holds key 5 with the counter \<open>0xFFFFFFFE\<close>,
  adding 2 stores 0, not \<open>0xFFFFFFFF\<close>, and the counter has decreased.
\<close>

theorem arys_add_overflow_stores_zero:
  "arys_add 0 5 2
     \<lparr>keys = [Some 5], vals = [0xFFFFFFFE :: 32 word], size_a = 1, mod_mask = 0, nb_elt = 0,
      count_a = 1, next_a = None, allocated = True, copy_chunck = 0\<rparr>
   = Ok (True,
     \<lparr>keys = [Some 5], vals = [0], size_a = 1, mod_mask = 0, nb_elt = 0,
      count_a = 1, next_a = None, allocated = True, copy_chunck = 0\<rparr>)"
  by (simp add: arys_add_def spa_set_def add_loop_first)

text \<open>
  C7. \<^verbatim>\<open>arys_t::add(i, k, v)\<close> returns false exactly when slot \<open>i\<close> holds some
  other key \<open>k' \<noteq> k\<close> (which is when the packed-key \<open>set(i, k)\<close> returns false), and
  the generation after the call is then the generation before it: no counter and no
  key has changed.
\<close>

theorem arys_add_False_iff:
  "(arys_add idx k v a = Ok (False, a')) =
     (a' = a \<and> spa_set (unat idx) k (keys a) = Ok (False, keys a) \<and>
      unat idx < length (keys a) \<and> (\<exists>k'. keys a ! unat idx = Some k' \<and> k' \<noteq> k))"
  by (auto simp: arys_add_def spa_set_def Let_def split: option.splits if_splits bool.splits)

section \<open>Sequences of adds through the handle\<close>

text \<open>
  C1. The claim: after any sequence of \<open>add(k, v_i)\<close> the counter of \<open>k\<close> is
  \<open>min(ALL_ONES, sum of the v_i)\<close>. On a fresh table of 8 slots with
  \<open>max_reprobe = 4\<close>, \<open>add(1, 4000000000)\<close> followed by \<open>add(1, 1000000000)\<close>
  leaves the counter of key 1 at 0, where the claim gives \<open>0xFFFFFFFF\<close>: the second
  add overflows and takes the branch \<^verbatim>\<open>nval = 0x0\<close> of \<^verbatim>\<open>arys_t::add\<close>.
\<close>

theorem thread_add_twice_stores_zero:
  "bind (bind (new_hash_counter 64 8 4 [] []) (thread_add 10 1 4000000000)) (thread_add 10 1 1000000000)
   = Ok \<lparr>heap = [Some \<lparr>keys = [None, None, None, Some 1, None, None, None, None],
                        vals = [0, 0, 0, 0 :: 32 word, 0, 0, 0, 0], size_a = 8, mod_mask = 7,
                        nb_elt = 0, count_a = 2, next_a = None, allocated = True, copy_chunck = 0\<rparr>],
          key_len = 64, key_val_arys_ptr = 0, key_val_arys = 0,
          max_reprobe = 4, emax_reprobe = 4, resize_lock = [], alloc_null = []\<rparr>"
  by code_simp

text \<open>
  C3. The claim: a resize followed by the copy-over keeps every key's count, for every
  generation size. On a table of 4 slots with \<open>max_reprobe = 4\<close>, the keys 1 to 4
  fill generation 0, each with count 1. The add of key 5 resizes to 8 slots and runs
  \<^verbatim>\<open>copy_over\<close> on generation 0, whose chunks are empty (\<open>size >> 7 = 0\<close>): the
  new generation holds key 5 alone, and generation 0 is deleted with the four counts.
\<close>

theorem resize_of_small_generation_loses_counts:
  "bind (bind (bind (bind (new_hash_counter 64 4 4 [] [])
      (thread_add 10 1 1)) (thread_add 10 2 1)) (thread_add 10 3 1)) (thread_add 10 4 1)
   = Ok \<lparr>heap = [Some \<lparr>keys = [Some 3, Some 4, Some 2, Some 1], vals = [1, 1, 1, 1 :: 32 word],
                        size_a = 4, mod_mask = 3, nb_elt = 0, count_a = 2, next_a = None,
                        allocated = True, copy_chunck = 0\<rparr>],
          key_len = 64, key_val_arys_ptr = 0, key_val_arys = 0,
          max_reprobe = 4, emax_reprobe = 4, resize_lock = [], alloc_null = []\<rparr>
   \<and>
   thread_add 200 5 1
     \<lparr>heap = [Some \<lparr>keys = [Some 3, Some 4, Some 2, Some 1], vals = [1, 1, 1, 1 :: 32 word],
                     size_a = 4, mod_mask = 3, nb_elt = 0, count_a = 2, next_a = None,
                     allocated = True, copy_chunck = 0\<rparr>],
       key_len = 64, key_val_arys_ptr = 0, key_val_arys = 0,
       max_reprobe = 4, emax_reprobe = 4, resize_lock = [], alloc_null = []\<rparr>
   = Ok \<lparr>heap = [None,
                  Some \<lparr>keys = [None, None, None, Some 5, None, None, None, None],
                        vals = [0, 0, 0, 1 :: 32 word, 0, 0, 0, 0], size_a = 8, mod_mask = 7,
                        nb_elt = 0, count_a = 2, next_a = None, allocated = True, copy_chunck = 0\<rparr>],
          key_len = 64, key_val_arys_ptr = 1, key_val_arys = 1,
          max_reprobe = 4, emax_reprobe = 4, resize_lock = [], alloc_null = []\<rparr>"
  by code_simp

section \<open>Copy-over of a small generation\<close>

lemma small_size_chunck: "size_a a < 128 \<Longrightarrow> drop_bit 7 (size_a a) = 0"
proof -
  assume "size_a a < 128"
  then have "unat (size_a a) < 128" by (simp add: word_less_nat_alt)
  then have "unat (size_a a div 128) = 0" by (simp add: unat_div)
  then have "size_a a div 128 = 0" by (simp add: unat_eq_0)
  then show ?thesis by (simp add: drop_bit_eq_div)
qed

lemma get_chunck_small:
  "size_a a < 128 \<Longrightarrow>
   get_chunck a = (if copy_chunck a \<ge> 128 then None else Some (0, 0), a\<lparr>copy_chunck := copy_chunck a + 1\<rparr>)"
  by (simp add: get_chunck_def small_size_chunck Let_def)

lemma copy_chuncks_done:
  assumes "deref (heap t) carys = Some a" "size_a a < 128" "copy_chunck a \<ge> 128"
  shows "run (Suc n) (Copy_chuncks carys) t =
    Ok (t\<lparr>heap := (heap t)[carys := Some (a\<lparr>copy_chunck := copy_chunck a + 1\<rparr>)]\<rparr>)"
  using assms by (simp add: copy_chuncks_body_def get_chunck_small)

lemma copy_chuncks_small:
  assumes "deref (heap t) carys = Some a" "size_a a < 128"
    and "unat (copy_chunck a) + k = 128" and "k < n"
  shows "run n (Copy_chuncks carys) t = Ok (t\<lparr>heap := (heap t)[carys := Some (a\<lparr>copy_chunck := 129\<rparr>)]\<rparr>)"
  using assms
proof (induction k arbitrary: n t a)
  case 0
  then have "unat (copy_chunck a) = 128" by simp
  then have c: "copy_chunck a = 128" by (simp add: word_unat_eq_iff)
  from 0 obtain m where n: "n = Suc m" by (cases n) auto
  show ?case using copy_chuncks_done [OF "0.prems"(1,2), of m] c by (simp add: n)
next
  case (Suc k)
  from Suc.prems obtain m where n: "n = Suc m" and m: "k < m" by (cases n) auto
  from m obtain m' where m': "m = Suc m'" by (cases m) auto
  have lt: "copy_chunck a < 128"
    using Suc.prems(3) by (simp add: word_less_nat_alt)
  have p: "carys < length (heap t)"
    using Suc.prems(1) by (simp add: deref_SomeD)
  let ?a1 = "a\<lparr>copy_chunck := copy_chunck a + 1\<rparr>"
  let ?t1 = "t\<lparr>heap := (heap t)[carys := Some ?a1]\<rparr>"
  have u: "unat (copy_chunck a + 1) = unat (copy_chunck a) + 1"
    using Suc.prems(3) by (simp add: unat_add_lem [THEN iffD1])
  have step: "run n (Copy_chuncks carys) t = run m (Copy_chuncks carys) ?t1"
    using Suc.prems(1,2) lt
    by (simp add: n copy_chuncks_body_def get_chunck_small m' copy_slots_body_def flip: not_less)
  have "run m (Copy_chuncks carys) ?t1 =
      Ok (?t1\<lparr>heap := (heap ?t1)[carys := Some (?a1\<lparr>copy_chunck := 129\<rparr>)]\<rparr>)"
  proof (rule Suc.IH)
    show "deref (heap ?t1) carys = Some ?a1" using p by (simp add: deref_update_same)
    show "size_a ?a1 < 128" using Suc.prems(2) by simp
    show "unat (copy_chunck ?a1) + k = 128" using Suc.prems(3) u by simp
    show "k < m" by (rule m)
  qed
  with step show ?case by simp
qed

text \<open>
  C9. For a generation of size below 128, \<^verbatim>\<open>get_chunck\<close> computes the chunk size
  \<open>size >> 7 = 0\<close>, every chunk it returns is \<open>start = end = 0\<close>, and
  \<^verbatim>\<open>copy_over\<close> on that generation returns (129 steps are enough) with nothing
  changed but the generation's chunk cursor: whatever its slots hold, no key and no
  count is copied.
\<close>

theorem copy_over_small_generation_copies_nothing:
  assumes "deref (heap t) carys = Some a" and "size_a a < 128"
  shows "drop_bit 7 (size_a a) = 0 \<and>
         (\<forall>s e a'. get_chunck a = (Some (s, e), a') \<longrightarrow> s = 0 \<and> e = 0) \<and>
         (\<forall>n\<ge>129. copy_over n carys t =
            Ok (t\<lparr>heap := (heap t)[carys := Some (a\<lparr>copy_chunck :=
                  (if copy_chunck a < 128 then 129 else copy_chunck a + 1)\<rparr>)]\<rparr>))"
proof (intro conjI allI impI)
  show "drop_bit 7 (size_a a) = 0" using assms(2) by (rule small_size_chunck)
next
  fix s e a'
  assume "get_chunck a = (Some (s, e), a')"
  then show "s = 0" and "e = 0"
    using assms(2) by (simp_all add: get_chunck_small split: if_splits)
next
  fix n :: nat
  assume n: "129 \<le> n"
  show "copy_over n carys t =
      Ok (t\<lparr>heap := (heap t)[carys := Some (a\<lparr>copy_chunck :=
            (if copy_chunck a < 128 then 129 else copy_chunck a + 1)\<rparr>)]\<rparr>)"
  proof (cases "copy_chunck a < 128")
    case True
    then have "unat (copy_chunck a) < 128" by (simp add: word_less_nat_alt)
    then have "unat (copy_chunck a) + (128 - unat (copy_chunck a)) = 128"
      and "128 - unat (copy_chunck a) < n"
      using n by simp_all
    from copy_chuncks_small [OF assms this] True show ?thesis
      by (simp add: copy_over_def)
  next
    case False
    from n obtain m where "n = Suc m" by (cases n) auto
    with copy_chuncks_done [OF assms, of m] False show ?thesis
      by (simp add: copy_over_def)
  qed
qed

theorem copy_over_small_generation_copies_nothing_witness:
  "deref (heap
     \<lparr>heap = [Some \<lparr>keys = [Some 3, Some 4, Some 2, Some 1], vals = [1, 1, 1, 1 :: 32 word],
                     size_a = 4, mod_mask = 3, nb_elt = 0, count_a = 1, next_a = None,
                     allocated = True, copy_chunck = 0\<rparr>],
       key_len = 64, key_val_arys_ptr = 0, key_val_arys = 0,
       max_reprobe = 4, emax_reprobe = 4, resize_lock = [], alloc_null = []\<rparr>) 0
   = Some \<lparr>keys = [Some 3, Some 4, Some 2, Some 1], vals = [1, 1, 1, 1 :: 32 word],
           size_a = 4, mod_mask = 3, nb_elt = 0, count_a = 1, next_a = None,
           allocated = True, copy_chunck = 0\<rparr>
   \<and> (4 :: ulong) < 128
   \<and> copy_over 129 0
     \<lparr>heap = [Some \<lparr>keys = [Some 3, Some 4, Some 2, Some 1], vals = [1, 1, 1, 1 :: 32 word],
                     size_a = 4, mod_mask = 3, nb_elt = 0, count_a = 1, next_a = None,
                     allocated = True, copy_chunck = 0\<rparr>],
       key_len = 64, key_val_arys_ptr = 0, key_val_arys = 0,
       max_reprobe = 4, emax_reprobe = 4, resize_lock = [], alloc_null = []\<rparr>
   = Ok \<lparr>heap = [Some \<lparr>keys = [Some 3, Some 4, Some 2, Some 1], vals = [1, 1, 1, 1 :: 32 word],
                     size_a = 4, mod_mask = 3, nb_elt = 0, count_a = 1, next_a = None,
                     allocated = True, copy_chunck = 129\<rparr>],
       key_len = 64, key_val_arys_ptr = 0, key_val_arys = 0,
       max_reprobe = 4, emax_reprobe = 4, resize_lock = [], alloc_null = []\<rparr>"
proof -
  let ?a = "\<lparr>keys = [Some 3, Some 4, Some 2, Some 1], vals = [1, 1, 1, 1 :: 32 word],
             size_a = 4, mod_mask = 3, nb_elt = 0, count_a = 1, next_a = None,
             allocated = True, copy_chunck = 0\<rparr>"
  let ?t = "\<lparr>heap = [Some ?a], key_len = 64, key_val_arys_ptr = 0, key_val_arys = 0,
             max_reprobe = 4, emax_reprobe = 4, resize_lock = [], alloc_null = []\<rparr>"
  have d: "deref (heap ?t) 0 = Some ?a" by (simp add: deref_def)
  have sz: "size_a ?a < 128" by simp
  from copy_over_small_generation_copies_nothing [OF d sz] d show ?thesis
    by simp
qed

section \<open>The member \<^verbatim>\<open>emax_reprobe\<close>\<close>

lemma set_emax_fields [simp]:
  "heap (set_emax e t) = heap t" "key_val_arys_ptr (set_emax e t) = key_val_arys_ptr t"
  "key_val_arys (set_emax e t) = key_val_arys t" "max_reprobe (set_emax e t) = max_reprobe t"
  "key_len (set_emax e t) = key_len t" "resize_lock (set_emax e t) = resize_lock t"
  "alloc_null (set_emax e t) = alloc_null t" "emax_reprobe (set_emax e t) = e"
  by (simp_all add: set_emax_def)

lemma set_emax_updates [simp]:
  "(set_emax e t)\<lparr>heap := h\<rparr> = set_emax e (t\<lparr>heap := h\<rparr>)"
  "(set_emax e t)\<lparr>key_val_arys := p\<rparr> = set_emax e (t\<lparr>key_val_arys := p\<rparr>)"
  "(set_emax e t)\<lparr>key_val_arys_ptr := p\<rparr> = set_emax e (t\<lparr>key_val_arys_ptr := p\<rparr>)"
  "(set_emax e t)\<lparr>resize_lock := l\<rparr> = set_emax e (t\<lparr>resize_lock := l\<rparr>)"
  "(set_emax e t)\<lparr>alloc_null := l\<rparr> = set_emax e (t\<lparr>alloc_null := l\<rparr>)"
  by (simp_all add: set_emax_def)

lemma resize_set_emax:
  "resize carys block (set_emax e t) = map_outcome (\<lambda>(r, t'). (r, set_emax e t')) (resize carys block t)"
  by (auto simp: resize_def trylock_def alloc_def Let_def bind_def
      split: list.splits option.splits prod.splits outcome.splits)

lemma add_outer_body_set_emax:
  assumes "\<And>g s. rec g (set_emax e s) = map_outcome (set_emax e) (rec g s)"
  shows "add_outer_body rec k v hash reprobe emax (set_emax e t) =
    map_outcome (set_emax e) (add_outer_body rec k v hash reprobe emax t)"
  by (auto simp: add_outer_body_def Let_def assms bind_def split: option.splits prod.splits outcome.splits)

lemma add_probe_body_set_emax:
  assumes "\<And>g s. rec g (set_emax e s) = map_outcome (set_emax e) (rec g s)"
  shows "add_probe_body rec k v hash carys idx reprobe emax (set_emax e t) =
    map_outcome (set_emax e) (add_probe_body rec k v hash carys idx reprobe emax t)"
  by (auto simp: add_probe_body_def Let_def assms resize_set_emax bind_def split: option.splits prod.splits outcome.splits)

lemma copy_chuncks_body_set_emax:
  assumes "\<And>g s. rec g (set_emax e s) = map_outcome (set_emax e) (rec g s)"
  shows "copy_chuncks_body rec carys (set_emax e t) = map_outcome (set_emax e) (copy_chuncks_body rec carys t)"
  by (auto simp: copy_chuncks_body_def Let_def assms bind_def split: option.splits prod.splits outcome.splits)

lemma copy_slots_body_set_emax:
  assumes "\<And>g s. rec g (set_emax e s) = map_outcome (set_emax e) (rec g s)"
  shows "copy_slots_body rec carys i end0 (set_emax e t) = map_outcome (set_emax e) (copy_slots_body rec carys i end0 t)"
  by (auto simp: copy_slots_body_def Let_def assms bind_def split: option.splits prod.splits outcome.splits)

lemma run_set_emax:
  "run n f (set_emax e t) = map_outcome (set_emax e) (run n f t)"
proof (induction n arbitrary: f t)
  case 0
  show ?case by simp
next
  case (Suc n)
  show ?case
    by (cases f)
      (simp_all add: add_outer_body_set_emax add_probe_body_set_emax
        copy_chuncks_body_set_emax copy_slots_body_set_emax Suc.IH)
qed

text \<open>
  C10. \<^verbatim>\<open>thread_hash_counter::add\<close> neither reads nor writes the member
  \<^verbatim>\<open>emax_reprobe\<close>: a call on the handle with the member set to any \<open>e\<close> does
  what the call on the handle does, and leaves \<open>e\<close> in the member; in particular the
  member after a call is the member before it. The limit that \<^verbatim>\<open>add\<close> raises to
  \<open>4 * max_reprobe\<close> is its local variable, which every call to \<open>thread_add\<close>
  starts at \<open>max_reprobe\<close>.
\<close>

theorem thread_add_leaves_emax_reprobe:
  "thread_add n k v (t\<lparr>emax_reprobe := e\<rparr>) =
     map_outcome (\<lambda>t'. t'\<lparr>emax_reprobe := e\<rparr>) (thread_add n k v t) \<and>
   (thread_add n k v t = Ok t' \<longrightarrow> emax_reprobe t' = emax_reprobe t)"
proof
  have eq: "thread_add n k v (set_emax e t) = map_outcome (set_emax e) (thread_add n k v t)" for e
    by (simp add: thread_add_def run_set_emax)
  have fn: "set_emax e = (\<lambda>t'. t'\<lparr>emax_reprobe := e\<rparr>)" for e :: uint and dummy :: "'a word"
    by (rule ext) (simp add: set_emax_def)
  show "thread_add n k v (t\<lparr>emax_reprobe := e\<rparr>) =
      map_outcome (\<lambda>t'. t'\<lparr>emax_reprobe := e\<rparr>) (thread_add n k v t)"
    using eq [of e] by (simp add: fn set_emax_def)
  show "thread_add n k v t = Ok t' \<longrightarrow> emax_reprobe t' = emax_reprobe t"
  proof
    assume ok: "thread_add n k v t = Ok t'"
    have "set_emax (emax_reprobe t) t = t" by (simp add: set_emax_def)
    with eq [of "emax_reprobe t"] ok have "t' = set_emax (emax_reprobe t) t'" by simp
    then have "emax_reprobe t' = emax_reprobe (set_emax (emax_reprobe t) t')" by simp
    then show "emax_reprobe t' = emax_reprobe t" by simp
  qed
qed

text \<open>
  A run in which the limit is raised: in a table of 4 slots with \<open>max_reprobe = 1\<close>
  that holds the keys 1 and 3, the add of key 5 exceeds the limit at its second reprobe
  while the mutex is busy, goes on with the local limit 4 and succeeds at slot 2.
\<close>

theorem thread_add_leaves_emax_reprobe_witness:
  "thread_add 10 5 1
     \<lparr>heap = [Some \<lparr>keys = [Some 3, None, None, Some 1], vals = [1, 0, 0, 1 :: 32 word],
                     size_a = 4, mod_mask = 3, nb_elt = 0, count_a = 2, next_a = None,
                     allocated = True, copy_chunck = 0\<rparr>],
       key_len = 64, key_val_arys_ptr = 0, key_val_arys = 0,
       max_reprobe = 1, emax_reprobe = 1, resize_lock = [True], alloc_null = []\<rparr>
   = Ok \<lparr>heap = [Some \<lparr>keys = [Some 3, None, Some 5, Some 1], vals = [1, 0, 1, 1 :: 32 word],
                        size_a = 4, mod_mask = 3, nb_elt = 0, count_a = 2, next_a = None,
                        allocated = True, copy_chunck = 0\<rparr>],
          key_len = 64, key_val_arys_ptr = 0, key_val_arys = 0,
          max_reprobe = 1, emax_reprobe = 1, resize_lock = [], alloc_null = []\<rparr>
   \<and> emax_reprobe
     \<lparr>heap = [Some \<lparr>keys = [Some 3, None, Some 5, Some 1], vals = [1, 0, 1, 1 :: 32 word],
                     size_a = 4, mod_mask = 3, nb_elt = 0, count_a = 2, next_a = None,
                     allocated = True, copy_chunck = 0\<rparr>],
       key_len = 64, key_val_arys_ptr = 0, key_val_arys = 0,
       max_reprobe = 1, emax_reprobe = 1, resize_lock = [], alloc_null = []\<rparr>
   = emax_reprobe
     \<lparr>heap = [Some \<lparr>keys = [Some 3, None, None, Some 1], vals = [1, 0, 0, 1 :: 32 word],
                     size_a = 4, mod_mask = 3, nb_elt = 0, count_a = 2, next_a = None,
                     allocated = True, copy_chunck = 0\<rparr>],
       key_len = 64, key_val_arys_ptr = 0, key_val_arys = 0,
       max_reprobe = 1, emax_reprobe = 1, resize_lock = [True], alloc_null = []\<rparr>"
proof -
  let ?t = "\<lparr>heap = [Some \<lparr>keys = [Some 3, None, None, Some 1], vals = [1, 0, 0, 1 :: 32 word],
                     size_a = 4, mod_mask = 3, nb_elt = 0, count_a = 2, next_a = None,
                     allocated = True, copy_chunck = 0\<rparr>],
       key_len = 64, key_val_arys_ptr = 0, key_val_arys = 0,
       max_reprobe = 1, emax_reprobe = 1, resize_lock = [True], alloc_null = []\<rparr>"
  let ?t' = "\<lparr>heap = [Some \<lparr>keys = [Some 3, None, Some 5, Some 1], vals = [1, 0, 1, 1 :: 32 word],
                     size_a = 4, mod_mask = 3, nb_elt = 0, count_a = 2, next_a = None,
                     allocated = True, copy_chunck = 0\<rparr>],
       key_len = 64, key_val_arys_ptr = 0, key_val_arys = 0,
       max_reprobe = 1, emax_reprobe = 1, resize_lock = [], alloc_null = []\<rparr>"
  have run: "thread_add 10 5 1 ?t = Ok ?t'" by code_simp
  from thread_add_leaves_emax_reprobe [where n = 10 and k = 5 and v = 1 and t = ?t and t' = ?t'] run
  have "emax_reprobe ?t' = emax_reprobe ?t" by blast
  with run show ?thesis by (intro conjI)
qed

section \<open>The sizes the constructors accept\<close>

lemma round_size_pow:
  assumes "rsize \<le> 2 ^ 63" and "k \<le> 63" and "\<forall>m<k. (2::ulong) ^ m < rsize"
  shows "\<exists>n. k \<le> n \<and> n \<le> 63 \<and> round_size rsize (2 ^ k) = Some (2 ^ n) \<and>
             rsize \<le> 2 ^ n \<and> (\<forall>m<n. (2::ulong) ^ m < rsize)"
  using assms
proof (induction "63 - k" arbitrary: k)
  case 0
  then have k: "k = 63" by simp
  have "round_size rsize (2 ^ k) = Some (2 ^ k)"
    using 0(2) by (subst round_size.simps) (simp add: k flip: not_le)
  with 0 k show ?case by auto
next
  case (Suc d)
  show ?case
  proof (cases "rsize \<le> 2 ^ k")
    case True
    then have "round_size rsize (2 ^ k) = Some (2 ^ k)"
      by (subst round_size.simps) (simp flip: not_le)
    with True Suc.prems show ?thesis by auto
  next
    case False
    then have gt: "2 ^ k < rsize" by simp
    from Suc(2) have k: "Suc k \<le> 63" by simp
    have all: "\<forall>m<Suc k. (2::ulong) ^ m < rsize"
      using Suc.prems(3) gt by (auto simp: less_Suc_eq)
    have d: "d = 63 - Suc k" using Suc(2) by simp
    from Suc(1) [OF d Suc.prems(1) k all]
    obtain n where n: "Suc k \<le> n" "n \<le> 63" "round_size rsize (2 ^ Suc k) = Some (2 ^ n)"
      "rsize \<le> 2 ^ n" "\<forall>m<n. (2::ulong) ^ m < rsize" by blast
    have "round_size rsize (2 ^ k) = round_size rsize (2 ^ Suc k)"
      using gt by (subst round_size.simps) (simp add: push_bit_eq_mult mult.commute)
    with n show ?thesis by (intro exI [of _ n]) auto
  qed
qed

lemma round_size_1:
  assumes "rsize \<le> 2 ^ 63"
  shows "\<exists>n\<le>63. round_size rsize 1 = Some (2 ^ n) \<and> rsize \<le> 2 ^ n \<and> (\<forall>m<n. (2::ulong) ^ m < rsize)"
  using round_size_pow [OF assms, of 0] by auto

lemma round_size_too_big:
  assumes "round_size rsize s = Some y"
  shows "\<not> (2 ^ 63 < rsize \<and> (s = 0 \<or> (\<exists>k<64. s = 2 ^ k)))"
proof (rule round_size.raw_induct
    [where P = "\<lambda>rsize s y. \<not> (2 ^ 63 < rsize \<and> (s = 0 \<or> (\<exists>k<64. s = 2 ^ k)))", OF _ assms])
  fix f :: "ulong \<Rightarrow> ulong \<Rightarrow> ulong option" and rsize s y :: ulong
  assume IH: "\<And>rsize s y. f rsize s = Some y \<Longrightarrow> \<not> (2 ^ 63 < rsize \<and> (s = 0 \<or> (\<exists>k<64. s = 2 ^ k)))"
    and eq: "(if s < rsize then f rsize (push_bit 1 s) else Some s) = Some y"
  show "\<not> (2 ^ 63 < rsize \<and> (s = 0 \<or> (\<exists>k<64. s = 2 ^ k)))"
  proof
    assume bad: "2 ^ 63 < rsize \<and> (s = 0 \<or> (\<exists>k<64. s = 2 ^ k))"
    then have big: "2 ^ 63 < rsize" by simp
    have "s \<le> 2 ^ 63"
      using bad pow2_le_iff [of _ 63] by auto
    with big have lt: "s < rsize" by simp
    have next_s: "push_bit 1 s = 0 \<or> (\<exists>k<64. push_bit 1 s = 2 ^ k)"
    proof -
      from bad consider "s = 0" | k where "k < 64" "s = 2 ^ k" by blast
      then show ?thesis
      proof cases
        case 1
        then show ?thesis by simp
      next
        case 2
        show ?thesis
        proof (cases "k = 63")
          case True
          with 2 have "push_bit 1 s = 0" by (simp add: push_bit_eq_mult)
          then show ?thesis by simp
        next
          case False
          with 2 have "Suc k < 64" "push_bit 1 s = 2 ^ Suc k"
            by (simp_all add: push_bit_eq_mult)
          then show ?thesis by blast
        qed
      qed
    qed
    from lt eq have fy: "f rsize (push_bit 1 s) = Some y" by simp
    have "\<not> (2 ^ 63 < rsize \<and> (push_bit 1 s = 0 \<or> (\<exists>k<64. push_bit 1 s = 2 ^ k)))"
      using fy by (rule IH)
    with big next_s show False by blast
  qed
qed

lemma round_size_diverges: "round_size (2 ^ 63 + 1) 1 = None"
proof (cases "round_size (2 ^ 63 + 1) 1")
  case None
  then show ?thesis .
next
  case (Some y)
  from round_size_too_big [OF Some] have "\<not> (\<exists>k<64. (1::ulong) = 2 ^ k)" by simp
  moreover have "(0::nat) < 64 \<and> (1::ulong) = 2 ^ 0" by simp
  ultimately show ?thesis by blast
qed

text \<open>
  Up to \<open>2^63\<close> the constructor over mapped memory does what its test says: it
  throws \<^verbatim>\<open>bad_size_exception\<close> for exactly the sizes that are not a power of two,
  and keeps a power of two as it is given.
\<close>

lemma map_arys_up_to_2p63:
  assumes "rsize \<le> 2 ^ 63"
  shows "map_arys item_len rsize region =
      (if \<exists>j\<le>63. rsize = 2 ^ j
       then Ok (Inr \<lparr>keys = fst region, vals = snd region, size_a = rsize, mod_mask = rsize - 1,
                     nb_elt = 0, count_a = 0, next_a = None, allocated = False, copy_chunck = 0\<rparr>)
       else Ok (Inl bad_size_exception))"
proof -
  from round_size_1 [OF assms] obtain n where n: "n \<le> 63" "round_size rsize 1 = Some (2 ^ n)"
    "rsize \<le> 2 ^ n" "\<forall>m<n. (2::ulong) ^ m < rsize" by blast
  have pow: "(\<exists>j\<le>63. rsize = 2 ^ j) = (rsize = 2 ^ n)"
  proof
    assume "\<exists>j\<le>63. rsize = 2 ^ j"
    then obtain j where j: "j \<le> 63" "rsize = 2 ^ j" by blast
    from n(3) j n(1) have "j \<le> n" by (simp add: pow2_le_iff)
    moreover have "\<not> j < n"
    proof
      assume "j < n"
      with n(4) have "(2::ulong) ^ j < rsize" by simp
      with j show False by simp
    qed
    ultimately show "rsize = 2 ^ n" using j by simp
  next
    assume "rsize = 2 ^ n"
    with n(1) show "\<exists>j\<le>63. rsize = 2 ^ j" by blast
  qed
  show ?thesis
    unfolding pow by (simp add: map_arys_def n(2))
qed

text \<open>
  Without memory the allocating constructor ends the process, once its rounding loop
  has returned.
\<close>

lemma new_arys_without_memory:
  "new_arys True item_len rsize None h = (if round_size rsize 1 = None then NoReturn else Exit)"
  by (simp add: new_arys_def Let_def split: option.splits)

text \<open>
  C6. The claim: the constructor over mapped memory raises \<^verbatim>\<open>bad_size_exception\<close>
  if and only if the size is not a power of two, and the allocating constructor
  accepts any requested size and rounds it up. The size \<open>2^63 + 1\<close> is not a power
  of two, and the constructor over mapped memory does not throw for it: the rounding
  loop \<^verbatim>\<open>while(_size > size) { size <<= 1; }\<close> shifts \<^verbatim>\<open>size\<close> from
  \<open>2^63\<close> to 0, stays below \<^verbatim>\<open>_size\<close> for ever, and the test of line 134 is
  never reached. The allocating constructor runs the same loop and does not return
  either, whatever the allocator gives.
\<close>

theorem constructors_do_not_return_at_2p63_plus_1:
  "map_arys item_len (2 ^ 63 + 1) region = NoReturn \<and>
   new_arys null item_len (2 ^ 63 + 1) prev h = NoReturn"
  by (simp only: new_arys_def map_arys_def round_size_diverges option.case simp_thms)

section \<open>The chain of generations\<close>










section \<open>The reprobe sequence\<close>

lemma triangle_double: "2 * triangle n = n * (n + 1)"
  by (induction n) simp_all

lemma triangle_mono: "a \<le> b \<Longrightarrow> triangle a \<le> triangle b"
  by (induction b) (auto simp: le_Suc_eq)

lemma triangle_diff:
  "2 * (triangle (a + d) - triangle a) = d * (2 * a + d + 1)"
proof -
  have "(a + d) * (a + d + 1) = a * (a + 1) + d * (2 * a + d + 1)"
    by (simp add: algebra_simps)
  then have "2 * triangle (a + d) = 2 * triangle a + d * (2 * a + d + 1)"
    by (simp only: triangle_double)
  then show ?thesis by (simp only: diff_mult_distrib2)
qed

lemma pow2_dvd_odd_mult:
  assumes "(2::nat) ^ k dvd x * y" and "odd x"
  shows "2 ^ k dvd y"
proof -
  from assms(2) have "coprime (2 ^ k) x" by simp
  with assms(1) show ?thesis by (simp add: coprime_dvd_mult_right_iff)
qed

lemma triangle_mod_distinct:
  assumes "a < b" and "b < 2 ^ m"
  shows "triangle a mod 2 ^ m \<noteq> triangle b mod 2 ^ m"
proof
  assume eq: "triangle a mod 2 ^ m = triangle b mod 2 ^ m"
  define d where "d = b - a"
  with assms have b: "b = a + d" and d: "0 < d" "d < 2 ^ m" by simp_all
  have "triangle a \<le> triangle b" using assms(1) by (simp add: triangle_mono)
  with eq [symmetric] have "2 ^ m dvd triangle b - triangle a"
    by (simp add: mod_eq_dvd_iff_nat)
  then have "2 * 2 ^ m dvd 2 * (triangle (a + d) - triangle a)"
    by (simp add: b)
  then have dv: "(2::nat) ^ Suc m dvd d * (2 * a + d + 1)"
    by (simp add: triangle_diff)
  have small: "2 * a + d + 1 < 2 ^ Suc m"
    using assms b by simp
  show False
  proof (cases "odd d")
    case True
    from pow2_dvd_odd_mult [OF dv True] have "2 ^ Suc m \<le> 2 * a + d + 1"
      by (intro dvd_imp_le) simp_all
    with small show False by simp
  next
    case False
    then have "odd (2 * a + d + 1)" by simp
    moreover from dv have "(2::nat) ^ Suc m dvd (2 * a + d + 1) * d"
      by (simp add: mult.commute)
    ultimately have "(2::nat) ^ Suc m dvd d" by (rule pow2_dvd_odd_mult [rotated])
    with d(1) have "2 ^ Suc m \<le> d" by (intro dvd_imp_le)
    with d(2) show False by simp
  qed
qed

lemma shifted_triangle_mod_distinct:
  assumes "a < b" and "b < 2 ^ m"
  shows "(c + triangle a) mod 2 ^ m \<noteq> (c + triangle b) mod 2 ^ m"
proof
  assume eq: "(c + triangle a) mod 2 ^ m = (c + triangle b) mod 2 ^ m"
  have le: "triangle a \<le> triangle b" using assms(1) by (simp add: triangle_mono)
  then have "c + triangle a \<le> c + triangle b" by simp
  with eq [symmetric] have "2 ^ m dvd (c + triangle b) - (c + triangle a)"
    by (simp only: mod_eq_dvd_iff_nat)
  then have "2 ^ m dvd triangle b - triangle a" by simp
  with le have "triangle b mod 2 ^ m = triangle a mod 2 ^ m"
    by (simp only: mod_eq_dvd_iff_nat)
  with triangle_mod_distinct [OF assms] show False by simp
qed

lemma shifted_triangle_covers:
  assumes "s < 2 ^ m"
  shows "\<exists>n<2 ^ m. (c + triangle n) mod 2 ^ m = s"
proof -
  let ?f = "\<lambda>n. (c + triangle n) mod 2 ^ m"
  let ?A = "{..<(2::nat) ^ m}"
  have inj: "inj_on ?f ?A"
  proof (rule inj_onI)
    fix x y assume "x \<in> ?A" "y \<in> ?A" "?f x = ?f y"
    then show "x = y"
      using shifted_triangle_mod_distinct [of x y m c] shifted_triangle_mod_distinct [of y x m c]
      by (cases x y rule: linorder_cases) auto
  qed
  have sub: "?f ` ?A \<subseteq> ?A" by auto
  have "card (?f ` ?A) = card ?A" using inj by (rule card_image)
  with sub have "?f ` ?A = ?A" by (intro card_subset_eq) simp_all
  with assms have "s \<in> ?f ` ?A" by simp
  then show ?thesis by auto
qed

lemma probes_reprobe: "snd (probes msk idx0 n) = of_nat n"
  by (induction n) (auto simp: Let_def split: prod.splits)

lemma probes_Suc:
  "fst (probes msk idx0 (Suc n)) = reprobe_idx msk (fst (probes msk idx0 n)) (of_nat (Suc n))"
  using probes_reprobe [of msk idx0 n] by (auto simp: Let_def add.commute split: prod.splits)

lemma unat_ucast_uint: "unat (ucast (x::uint) :: ulong) = unat x"
proof -
  have "unat x < 2 ^ 32" using unsigned_less [of x] by simp
  then show ?thesis by (simp add: unsigned_ucast_eq take_bit_eq_mod)
qed

lemma unat_and_mask: "unat (x AND mask m) = unat (x::ulong) mod 2 ^ m"
proof -
  have "x AND mask m = take_bit m x" by (simp add: take_bit_eq_mask)
  moreover have "unat (take_bit m x) = take_bit m (unat x)" by (rule unsigned_take_bit_eq)
  ultimately show ?thesis by (simp only: take_bit_eq_mod)
qed

lemma unat_reprobe_idx:
  assumes "m \<le> 64"
  shows "unat (reprobe_idx (2 ^ m - 1) idx r) = (unat idx + unat r) mod 2 ^ m"
proof -
  have "(2::nat) ^ m dvd 2 ^ 64" using assms by (rule le_imp_power_dvd)
  then have "(unat idx + unat r) mod 2 ^ 64 mod 2 ^ m = (unat idx + unat r) mod 2 ^ m"
    by (rule mod_mod_cancel)
  moreover have "unat (idx + ucast r) = (unat idx + unat r) mod 2 ^ 64"
    by (simp add: unat_word_ariths unat_ucast_uint)
  moreover have "(2::ulong) ^ m - 1 = mask m" by (simp add: mask_eq_exp_minus_1)
  ultimately show ?thesis by (simp only: reprobe_idx_def unat_and_mask)
qed

lemma probes_unat:
  assumes "m \<le> 32" and "unat idx0 < 2 ^ m"
  shows "unat (fst (probes (2 ^ m - 1) idx0 n)) = (unat idx0 + triangle n) mod 2 ^ m"
proof (induction n)
  case 0
  show ?case using assms(2) by simp
next
  case (Suc n)
  have dvd: "(2::nat) ^ m dvd 2 ^ 32" using assms(1) by (rule le_imp_power_dvd)
  have "unat (of_nat (Suc n) :: uint) = Suc n mod 2 ^ 32"
    by (simp only: unat_of_nat) simp
  then have r: "unat (of_nat (Suc n) :: uint) mod 2 ^ m = Suc n mod 2 ^ m"
    using mod_mod_cancel [OF dvd, of "Suc n"] by (simp only:)
  have "unat (fst (probes (2 ^ m - 1) idx0 (Suc n)))
      = (unat (fst (probes (2 ^ m - 1) idx0 n)) + unat (of_nat (Suc n) :: uint)) mod 2 ^ m"
    using assms(1) by (simp only: probes_Suc unat_reprobe_idx)
  also have "\<dots> = ((unat idx0 + triangle n) mod 2 ^ m + unat (of_nat (Suc n) :: uint) mod 2 ^ m) mod 2 ^ m"
    by (simp only: Suc.IH mod_add_right_eq)
  also have "\<dots> = ((unat idx0 + triangle n) mod 2 ^ m + Suc n mod 2 ^ m) mod 2 ^ m"
    by (simp only: r)
  also have "\<dots> = ((unat idx0 + triangle n) + Suc n) mod 2 ^ m"
    by (rule mod_add_eq)
  also have "\<dots> = (unat idx0 + triangle (Suc n)) mod 2 ^ m"
    by (simp add: add.assoc)
  finally show ?case .
qed

lemma probes_stall:
  assumes "(of_nat (Suc (Suc k)) :: uint) = 0"
  shows "fst (probes msk idx0 (Suc (Suc k))) = fst (probes msk idx0 (Suc k))"
proof -
  let ?i = "fst (probes msk idx0 (Suc k))"
  have "?i = reprobe_idx msk (fst (probes msk idx0 k)) (of_nat (Suc k))"
    by (rule probes_Suc)
  then have masked: "?i AND msk = ?i"
    by (simp add: reprobe_idx_def and.assoc)
  have "fst (probes msk idx0 (Suc (Suc k))) = ?i AND msk"
    by (simp only: probes_Suc [of _ _ "Suc k"] reprobe_idx_def assms) simp
  with masked show ?thesis by simp
qed

lemma probes_repeat:
  "fst (probes msk idx0 (2 ^ 32)) = fst (probes msk idx0 (2 ^ 32 - 1))"
proof -
  have e1: "Suc (2 ^ 32 - 1) = (2::nat) ^ 32" and e2: "Suc (2 ^ 32 - 2) = (2::nat) ^ 32 - 1"
    by simp_all
  have "(of_nat (Suc (Suc (2 ^ 32 - 2))) :: uint) = 0" by simp
  from probes_stall [OF this, of msk idx0] show ?thesis
    by (simp only: e1 e2)
qed

text \<open>
  C4, as the claim states it, fails for the table sizes above \<open>2^32\<close>: the counter
  \<^verbatim>\<open>reprobe\<close> is an \<^verbatim>\<open>unsigned int\<close>, and \<^verbatim>\<open>++reprobe\<close> takes it from
  \<open>2^32 - 1\<close> to 0. In a table of \<open>2^33\<close> slots the probe number \<open>2^32\<close> is at
  the slot of the probe before it, so the first \<open>2^33\<close> probes from slot 0 miss a slot.
\<close>

theorem reprobe_sequence_repeats_at_2p33:
  "\<not> (\<forall>slot < 2 ^ 33. \<exists>n<2 ^ 33. fst (probes (2 ^ 33 - 1) 0 n) = slot)"
proof
  assume all: "\<forall>slot < 2 ^ 33. \<exists>n<2 ^ 33. fst (probes (2 ^ 33 - 1) 0 n) = slot"
  let ?g = "\<lambda>n. unat (fst (probes (2 ^ 33 - 1) 0 n))"
  let ?A = "{..<(2::nat) ^ 33}"
  have sub: "?A \<subseteq> ?g ` ?A"
  proof
    fix s assume "s \<in> ?A"
    then have s: "s < 2 ^ 33" by simp
    then have u: "unat (of_nat s :: ulong) = s" by (simp add: unat_of_nat)
    have "unat ((2::ulong) ^ 33) = 2 ^ 33" by (rule unat_2p) simp
    with s u have "(of_nat s :: ulong) < 2 ^ 33" by (simp only: word_less_nat_alt)
    with all obtain n where "n < 2 ^ 33" "fst (probes (2 ^ 33 - 1) 0 n) = of_nat s" by blast
    with u show "s \<in> ?g ` ?A" by force
  qed
  have "card ?A \<le> card (?g ` ?A)" using sub by (intro card_mono) simp_all
  moreover have "card (?g ` ?A) \<le> card ?A" by (intro card_image_le) simp
  ultimately have "card (?g ` ?A) = card ?A" by simp
  then have "inj_on ?g ?A" by (intro eq_card_imp_inj_on) simp_all
  moreover have "?g (2 ^ 32) = ?g (2 ^ 32 - 1)" by (simp only: probes_repeat)
  moreover have "(2::nat) ^ 32 \<in> ?A" "(2::nat) ^ 32 - 1 \<in> ?A" by simp_all
  ultimately have "(2::nat) ^ 32 = 2 ^ 32 - 1" by (rule inj_onD)
  then show False by simp
qed

text \<open>
  C4, amended. For every table size \<open>S = 2^m\<close> up to \<open>2^32\<close> and every start
  \<open>idx0\<close> below \<open>S\<close>, the reprobe sequence \<open>idx \<leftarrow> (idx + reprobe) AND (S - 1)\<close>,
  with \<open>reprobe\<close> incremented before each step, visits every slot of the table
  within its first \<open>S\<close> probes; the probe number \<open>n\<close> is at
  \<open>(idx0 + triangle n) mod S\<close>.
\<close>

theorem reprobe_sequence_covers_table:
  assumes "m \<le> 32" and "idx0 < 2 ^ m"
  shows "(\<forall>n. unat (fst (probes (2 ^ m - 1) idx0 n)) = (unat idx0 + triangle n) mod 2 ^ m) \<and>
         (\<forall>slot. slot < 2 ^ m \<longrightarrow> (\<exists>n<2 ^ m. fst (probes (2 ^ m - 1) idx0 n) = slot))"
proof (intro conjI allI impI)
  from assms(1) have m: "m < 64" by simp
  from assms(2) have i: "unat idx0 < 2 ^ m"
    by (simp add: word_less_nat_alt unat_2p [OF m])
  show "unat (fst (probes (2 ^ m - 1) idx0 n)) = (unat idx0 + triangle n) mod 2 ^ m" for n
    by (rule probes_unat [OF assms(1) i])
  fix slot :: ulong
  assume "slot < 2 ^ m"
  then have s: "unat slot < 2 ^ m"
    by (simp add: word_less_nat_alt unat_2p [OF m])
  from shifted_triangle_covers [OF s, of "unat idx0"]
  obtain n where n: "n < 2 ^ m" "(unat idx0 + triangle n) mod 2 ^ m = unat slot" by blast
  then have "unat (fst (probes (2 ^ m - 1) idx0 n)) = unat slot"
    by (simp add: probes_unat [OF assms(1) i])
  then have "fst (probes (2 ^ m - 1) idx0 n) = slot"
    by (simp add: word_unat_eq_iff)
  with n(1) show "\<exists>n<2 ^ m. fst (probes (2 ^ m - 1) idx0 n) = slot" by blast
qed

theorem reprobe_sequence_covers_table_witness:
  "(3 :: nat) \<le> 32 \<and> (5 :: ulong) < 2 ^ 3 \<and> (2 :: ulong) < 2 ^ 3 \<and>
   (\<exists>n<2 ^ 3. fst (probes (2 ^ 3 - 1) 5 n) = 2) \<and>
   map (\<lambda>n. fst (probes 7 5 n)) [0, 1, 2, 3, 4, 5, 6, 7] = [5, 6, 0, 3, 7, 4, 2, 1]"
proof -
  have m: "(3 :: nat) \<le> 32" and i: "(5 :: ulong) < 2 ^ 3" and s: "(2 :: ulong) < 2 ^ 3"
    by simp_all
  from reprobe_sequence_covers_table [OF m i] s
  have "\<exists>n<2 ^ 3. fst (probes (2 ^ 3 - 1) 5 n) = 2" by blast
  moreover have "map (\<lambda>n. fst (probes 7 5 n)) [0, 1, 2, 3, 4, 5, 6, 7] = [5, 6, 0, 3, 7, 4, 2, 1]"
    by code_simp
  ultimately show ?thesis using m i s by (intro conjI)
qed

section \<open>Write, then map\<close>

lemma length_le_bytes [simp]: "length (le_bytes n w) = n"
  by (simp add: le_bytes_def)

lemma ucast_byte_back: "(ucast (ucast (x :: 'v::len word) :: byte) :: 'v word) = take_bit 8 x"
  by (rule bit_word_eqI) (auto simp: bit_ucast_iff bit_take_bit_iff dest: bit_imp_le_length)

lemma of_le_bytes_le_bytes: "(of_le_bytes (le_bytes n w) :: 'v::len word) = take_bit (8 * n) (w :: 'v word)"
proof (induction n)
  case 0
  show ?case by (simp add: of_le_bytes_def le_bytes_def)
next
  case (Suc n)
  have "(of_le_bytes (le_bytes (Suc n) w) :: 'v word)
      = of_le_bytes (le_bytes n w) + 256 ^ n * ucast (ucast (drop_bit (8 * n) w) :: byte)"
    by (simp add: of_le_bytes_def le_bytes_def horner_sum_append)
  also have "\<dots> = take_bit (8 * n) w + 2 ^ (8 * n) * take_bit 8 (drop_bit (8 * n) w)"
    by (simp only: Suc.IH ucast_byte_back power_mult) simp
  also have "\<dots> = take_bit (8 * n) w + push_bit (8 * n) (take_bit 8 (drop_bit (8 * n) w))"
    by (simp only: push_bit_eq_mult mult.commute)
  also have "\<dots> = take_bit (8 * n) (take_bit (8 + 8 * n) w)
      + push_bit (8 * n) (drop_bit (8 * n) (take_bit (8 + 8 * n) w))"
    by (simp add: take_bit_drop_bit)
  also have "\<dots> = take_bit (8 + 8 * n) w"
    using bits_ident [of "8 * n" "take_bit (8 + 8 * n) w"] by (simp only: add.commute)
  finally show ?case by (simp add: add.commute)
qed

lemma of_le_bytes_whole:
  assumes "8 dvd LENGTH('v::len)"
  shows "(of_le_bytes (le_bytes (LENGTH('v) div 8) w) :: 'v word) = w"
  using assms by (simp add: of_le_bytes_le_bytes)

lemma vals_of_bytes_concat:
  assumes "8 dvd LENGTH('v::len)"
  shows "vals_of_bytes (concat (map (le_bytes (LENGTH('v) div 8)) vs)) = (vs :: 'v word list)"
proof -
  from assms obtain k where k: "LENGTH('v) = 8 * k" by (rule dvdE)
  have "0 < LENGTH('v)" by simp
  with k have pos: "0 < LENGTH('v) div 8" by simp
  show ?thesis
  proof (induction vs)
    case Nil
    show ?case using pos by (subst vals_of_bytes.simps) simp
  next
    case (Cons v vs)
    show ?case
      using pos Cons.IH by (subst vals_of_bytes.simps) (simp add: of_le_bytes_whole [OF assms])
  qed
qed

lemma length_concat_le_bytes: "length (concat (map (le_bytes n) vs)) = n * length vs"
  by (induction vs) simp_all

lemma iterator_next_cong:
  "keys a' = keys a \<Longrightarrow> vals a' = vals a \<Longrightarrow> size_a a' = size_a a \<Longrightarrow>
   iterator_next a' pos = iterator_next a pos"
proof (induction a pos rule: iterator_next.induct)
  case (1 a pos)
  have g: "arys_get pos a' = arys_get pos a"
    by (simp add: arys_get_def "1.prems" split: outcome.splits option.splits)
  show ?case
  proof (cases "pos < size_a a \<and> arys_get pos a = Ok None")
    case True
    then have "iterator_next a' (pos + 1) = iterator_next a (pos + 1)"
      using "1.prems" by (intro "1.IH") simp_all
    with True show ?thesis
      by (subst iterator_next.simps, subst (2) iterator_next.simps) (simp add: "1.prems" g)
  next
    case False
    then show ?thesis
      by (subst iterator_next.simps, subst (2) iterator_next.simps)
        (auto simp: "1.prems" g split: outcome.splits option.splits)
  qed
qed

lemma iterate_from_cong:
  "keys a' = keys a \<Longrightarrow> vals a' = vals a \<Longrightarrow> size_a a' = size_a a \<Longrightarrow>
   iterate_from a' pos = iterate_from a pos"
proof (induction a pos rule: iterate_from.induct)
  case (1 a pos)
  have n: "iterator_next a' pos = iterator_next a pos"
    using "1.prems" by (rule iterator_next_cong)
  show ?case
  proof (cases "iterator_next a pos")
    case (Ok r)
    show ?thesis
    proof (cases r)
      case None
      with Ok n show ?thesis
        by (subst iterate_from.simps, subst (2) iterate_from.simps) simp
    next
      case (Some x)
      obtain kv pos' where x: "x = (kv, pos')" by (cases x)
      have "iterate_from a' pos' = iterate_from a pos'"
        using Ok Some x "1.prems" by (intro "1.IH") simp_all
      with Ok Some x n show ?thesis
        by (subst iterate_from.simps, subst (2) iterate_from.simps) simp
    qed
  next
    case Undefined
    with n show ?thesis
      by (subst iterate_from.simps, subst (2) iterate_from.simps) simp
  next
    case NoReturn
    with n show ?thesis
      by (subst iterate_from.simps, subst (2) iterate_from.simps) simp
  next
    case Exit
    with n show ?thesis
      by (subst iterate_from.simps, subst (2) iterate_from.simps) simp
  qed
qed

lemma round_size_pow2:
  assumes "n \<le> 63"
  shows "round_size (2 ^ n) 1 = Some (2 ^ n)"
proof -
  have "(2::ulong) ^ n \<le> 2 ^ 63" using assms pow2_le_iff [of n 63] by simp
  from round_size_1 [OF this] obtain k where k: "k \<le> 63" "round_size (2 ^ n) 1 = Some (2 ^ k)"
    "(2::ulong) ^ n \<le> 2 ^ k" "\<forall>m<k. (2::ulong) ^ m < 2 ^ n" by blast
  from k(1,3) assms have "n \<le> k" by (simp add: pow2_le_iff)
  moreover have "\<not> n < k"
  proof
    assume "n < k"
    with k(4) have "(2::ulong) ^ n < 2 ^ n" by blast
    then show False by simp
  qed
  ultimately have "k = n" by simp
  with k(2) show ?thesis by simp
qed

text \<open>
  C8. Let a generation have a power of two as its size, as the allocating constructor
  makes it, a counter array of that size, and a counter type of whole bytes. Let
  \<^verbatim>\<open>write\<close> give the bytes \<open>bs\<close>: the key buffer, then the counters. Under the
  contract of the packed key array (its buffer is \<^verbatim>\<open>get_data_len()\<close> bytes long, and
  its constructor over a region that starts with the buffer has the cells that were
  written), the constructor over the region \<open>bs\<close>, with the generation's size,
  raises nothing and gives a generation whose iteration yields the pairs of the
  original, in the same order, hence the same multiset.
\<close>

theorem write_then_map_iterates_the_same:
  fixes a :: "'v::len word arys"
  assumes "8 dvd LENGTH('v)"
    and "size_a a = 2 ^ n" and "n \<le> 63"
    and "length (vals a) = unat (size_a a)"
    and "(LENGTH('v) div 8) * unat (size_a a) < 2 ^ 64"
    and "arys_write keys_written a = Ok bs"
    and "length keys_written = data_len" and "keys_of_map bs = keys a"
  shows "\<exists>a'. map_arys item_len (size_a a) (map_region keys_of_map data_len bs) = Ok (Inr a') \<and>
              iterate a' = iterate a"
proof -
  let ?sz = "LENGTH('v) div 8"
  let ?mem = "concat (map (le_bytes ?sz) (vals a))"
  have "unat (size_a a) = 2 ^ n" using assms(2,3) by (simp add: unat_2p)
  then have "0 < unat (size_a a)" by simp
  then have "?sz \<le> ?sz * unat (size_a a)" by (cases "unat (size_a a)") simp_all
  then have "?sz < 2 ^ 64" using assms(5) by (rule le_less_trans)
  then have "unat (of_nat ?sz :: ulong) = ?sz" by (simp add: unat_of_nat)
  with assms(5) have "unat (of_nat ?sz :: ulong) * unat (size_a a) < 2 ^ LENGTH(64)" by simp
  then have "unat (of_nat ?sz * size_a a) = unat (of_nat ?sz :: ulong) * unat (size_a a)"
    by (simp only: unat_mult_lem)
  with \<open>unat (of_nat ?sz :: ulong) = ?sz\<close>
  have "unat (of_nat ?sz * size_a a) = ?sz * unat (size_a a)" by simp
  then have n: "unat (of_nat ?sz * size_a a) = length ?mem"
    by (simp add: length_concat_le_bytes assms(4))
  with assms(6) have bs: "bs = keys_written @ ?mem"
    by (simp add: arys_write_def Let_def)
  have v: "(vals_of_bytes (drop data_len bs) :: 'v word list) = vals a"
    using assms(7) by (simp add: bs vals_of_bytes_concat [OF assms(1)])
  let ?a' = "\<lparr>keys = keys a, vals = vals a, size_a = size_a a, mod_mask = size_a a - 1,
              nb_elt = 0, count_a = 0, next_a = None, allocated = False, copy_chunck = 0\<rparr>"
  have "map_arys item_len (size_a a) (map_region keys_of_map data_len bs) = Ok (Inr ?a')"
    using round_size_pow2 [OF assms(3)]
    by (simp add: map_arys_def map_region_def assms(2,8) v)
  moreover have "iterate ?a' = iterate a"
    unfolding iterate_def by (rule iterate_from_cong) simp_all
  ultimately show ?thesis by blast
qed

text \<open>
  An instance: two slots, one byte for each key cell (the presence bit, then the
  payload), and 32-bit counters.
\<close>

theorem write_then_map_iterates_the_same_witness:
  "arys_write [7, 0]
     \<lparr>keys = [Some 3, None], vals = [1, 2 :: 32 word], size_a = 2, mod_mask = 1, nb_elt = 0,
      count_a = 1, next_a = None, allocated = True, copy_chunck = 0\<rparr>
   = Ok [7, 0, 1, 0, 0, 0, 2, 0, 0, 0] \<and>
   (\<exists>a'. map_arys 8 2
       (map_region (\<lambda>bs. map (\<lambda>b. if bit b 0 then Some (ucast (drop_bit 1 b)) else None) (take 2 bs))
          2 [7, 0, 1, 0, 0, 0, 2, 0, 0, 0])
      = Ok (Inr a') \<and>
      iterate a' = iterate
        \<lparr>keys = [Some 3, None], vals = [1, 2 :: 32 word], size_a = 2, mod_mask = 1, nb_elt = 0,
         count_a = 1, next_a = None, allocated = True, copy_chunck = 0\<rparr>) \<and>
   iterate
     \<lparr>keys = [Some 3, None], vals = [1, 2 :: 32 word], size_a = 2, mod_mask = 1, nb_elt = 0,
      count_a = 1, next_a = None, allocated = True, copy_chunck = 0\<rparr>
   = Ok [(3, 1)]"
proof -
  let ?a = "\<lparr>keys = [Some 3, None], vals = [1, 2 :: 32 word], size_a = 2, mod_mask = 1, nb_elt = 0,
             count_a = 1, next_a = None, allocated = True, copy_chunck = 0\<rparr>"
  let ?bs = "[7, 0, 1, 0, 0, 0, 2, 0, 0, 0] :: byte list"
  let ?k = "\<lambda>bs :: byte list. map (\<lambda>b. if bit b 0 then Some (ucast (drop_bit 1 b) :: Key) else None) (take 2 bs)"
  have w: "arys_write [7, 0] ?a = Ok ?bs" by code_simp
  have k: "?k ?bs = keys ?a" by code_simp
  have i: "iterate ?a = Ok [(3, 1)]" by code_simp
  have d: "8 dvd LENGTH(32)" by simp
  have s: "size_a ?a = 2 ^ 1" by simp
  have n: "(1 :: nat) \<le> 63" by simp
  have l: "length (vals ?a) = unat (size_a ?a)" by simp
  have f: "LENGTH(32) div 8 * unat (size_a ?a) < 2 ^ 64" by simp
  have e: "length [7, 0 :: byte] = 2" by simp
  from write_then_map_iterates_the_same
    [where a = ?a and keys_of_map = ?k and bs = ?bs and keys_written = "[7, 0]" and data_len = 2
      and n = 1 and item_len = 8, OF d s n l f w e k]
  have "\<exists>a'. map_arys 8 2 (map_region ?k 2 ?bs) = Ok (Inr a') \<and> iterate a' = iterate ?a"
    by simp
  with w i show ?thesis by (intro conjI)
qed

end
